theory Spec2Isabelle
  imports Main
begin

unbundle bit_operations_syntax

section \<open>Python values and exceptions\<close>

text \<open>
  The notebook works on Python's unbounded integers, modelled by \<^typ>\<open>int\<close>.  Python's
  \<^verbatim>\<open>%\<close> is floor modulo (the result has the sign of the divisor), which is what
  \<open>mod\<close> on \<^typ>\<open>int\<close> computes, except that Python raises where the divisor is zero.
  The exceptions the modelled cells can raise are the constructors of \<open>error\<close>; a result
  is \<open>Inl e\<close> for a raised exception and \<open>Inr v\<close> for a returned value.  A computation
  that may not return has an \<open>option\<close> result, \<open>None\<close> standing for "does not return".
\<close>

datatype error = ZeroDivisionError | ValueError | IndexError

section \<open>Brute-force period finding\<close>

text \<open>
  \<^verbatim>\<open>
  def find_period_classical(x, N):
      n = 1
      t = x
      while t != 1:
          t *= x
          t %= N
          n += 1
      return n
  \<close>
  The loop may run forever, so the model carries fuel: the number of executions of the
  loop body it is allowed.  \<open>None\<close> says that the fuel ran out with \<open>t \<noteq> 1\<close>; the guard
  \<open>t != 1\<close> itself costs no fuel.
\<close>

fun find_period_loop :: "nat \<Rightarrow> int \<Rightarrow> int \<Rightarrow> int \<Rightarrow> int \<Rightarrow> (error + int) option" where
  "find_period_loop 0 t x N n = (if t \<noteq> 1 then None else Some (Inr n))"
| "find_period_loop (Suc fuel) t x N n =
     (if t \<noteq> 1 then
        (if N = 0 then Some (Inl ZeroDivisionError)
         else find_period_loop fuel ((t * x) mod N) x N (n + 1))
      else Some (Inr n))"

definition find_period_classical :: "nat \<Rightarrow> int \<Rightarrow> int \<Rightarrow> (error + int) option" where
  "find_period_classical fuel x N = find_period_loop fuel x x N 1"

section \<open>The incremental sieve\<close>

text \<open>
  \<^verbatim>\<open>
  def sieve():
      D = {}
      yield 2
      for q in itertools.islice(itertools.count(3), 0, None, 2):
          p = D.pop(q, None)
          if p is None:
              D[q*q] = q
              yield q
          else:
              x = p + q
              while x in D or not (x&1):
                  x += p
              D[x] = p
  \<close>
  The dictionary \<open>D\<close> is a map from keys to values.  The generator is either not yet
  started, or suspended with its dictionary and the next odd candidate \<open>q\<close> of the
  \<^verbatim>\<open>for\<close> loop.
\<close>

datatype sieve_state = Start | Scan "int \<rightharpoonup> int" int

text \<open>
  The inner \<^verbatim>\<open>while\<close> loop, started at \<open>x = p + q\<close> on the dictionary from which
  \<open>q\<close> has been popped.  \<^verbatim>\<open>not (x&1)\<close> holds when the lowest bit of \<open>x\<close> is 0.
\<close>

partial_function (option) next_multiple :: "(int \<rightharpoonup> int) \<Rightarrow> int \<Rightarrow> int \<Rightarrow> int option" where
  "next_multiple D p x =
     (if x \<in> dom D \<or> x AND 1 = 0 then next_multiple D p (x + p) else Some x)"

text \<open>
  One step of the generator: the initial \<^verbatim>\<open>yield 2\<close>, or one pass through the body of
  the \<^verbatim>\<open>for\<close> loop.  The result is the state before the next candidate together with
  the value yielded on the way, if any; it is \<open>None\<close> when the inner loop does not return.
\<close>

fun sieve_step :: "sieve_state \<Rightarrow> (sieve_state \<times> int option) option" where
  "sieve_step Start = Some (Scan Map.empty 3, Some 2)"
| "sieve_step (Scan D q) =
     (case D q of
        None \<Rightarrow> Some (Scan (D(q * q \<mapsto> q)) (q + 2), Some q)
      | Some p \<Rightarrow>
          (case next_multiple (D(q := None)) p (p + q) of
             None \<Rightarrow> None
           | Some x \<Rightarrow> Some (Scan ((D(q := None))(x \<mapsto> p)) (q + 2), None)))"

text \<open>
  \<^verbatim>\<open>
  def get_primes_sieve(n):
      L = list(itertools.takewhile(lambda p: p<n, sieve()))
      return L
  \<close>
  \<^verbatim>\<open>takewhile\<close> drives the generator until it yields a value that fails \<open>p < n\<close>;
  candidates that yield nothing are passed over.  \<open>L\<close> collects the values kept so far.
\<close>

partial_function (option) takewhile_sieve :: "int \<Rightarrow> sieve_state \<Rightarrow> int list \<Rightarrow> int list option" where
  "takewhile_sieve n s L =
     (case sieve_step s of
        None \<Rightarrow> None
      | Some (s', None) \<Rightarrow> takewhile_sieve n s' L
      | Some (s', Some p) \<Rightarrow> if p < n then takewhile_sieve n s' (L @ [p]) else Some L)"

definition get_primes_sieve :: "int \<Rightarrow> int list option" where
  "get_primes_sieve n = takewhile_sieve n Start []"

text \<open>
  The history of the generator on its own: the state reached and the values yielded after
  \<open>k\<close> steps, when nothing stops it.
\<close>

fun sieve_run :: "nat \<Rightarrow> (sieve_state \<times> int list) option" where
  "sieve_run 0 = Some (Start, [])"
| "sieve_run (Suc k) =
     (case sieve_run k of
        None \<Rightarrow> None
      | Some (s, ys) \<Rightarrow>
          (case sieve_step s of
             None \<Rightarrow> None
           | Some (s', y) \<Rightarrow> Some (s', ys @ (case y of None \<Rightarrow> [] | Some p \<Rightarrow> [p]))))"

section \<open>Random semiprimes\<close>

text \<open>
  \<^verbatim>\<open>
  def get_semiprime(n):
      primes = get_primes_sieve(n)
      l = len(primes)
      p = primes[random.randrange(l)]
      q = primes[random.randrange(l)]
      return p*q
  \<close>
  \<^verbatim>\<open>random.randrange(l)\<close> raises \<open>ValueError\<close> for an empty range (\<open>l \<le> 0\<close>) and otherwise
  returns some integer of \<open>[0, l)\<close>.  The value it returns is a parameter of the model, one
  for each of the two calls; the theorems about draws assume it lies in that range.
  Subscription of a list follows Python: a negative index counts from the end, and an
  index out of range raises \<open>IndexError\<close>.
\<close>

definition randrange :: "int \<Rightarrow> int \<Rightarrow> error + int" where
  "randrange l drawn = (if l \<le> 0 then Inl ValueError else Inr drawn)"

definition list_index :: "'a list \<Rightarrow> int \<Rightarrow> error + 'a" where
  "list_index xs i =
     (let l = int (length xs); j = (if i < 0 then l + i else i)
      in if 0 \<le> j \<and> j < l then Inr (xs ! nat j) else Inl IndexError)"

definition get_semiprime :: "int \<Rightarrow> int \<Rightarrow> int \<Rightarrow> (error + int) option" where
  "get_semiprime n drawn1 drawn2 =
     (case get_primes_sieve n of
        None \<Rightarrow> None
      | Some primes \<Rightarrow>
          Some (let l = int (length primes) in
                case randrange l drawn1 of
                  Inl e \<Rightarrow> Inl e
                | Inr i \<Rightarrow>
                    (case list_index primes i of
                       Inl e \<Rightarrow> Inl e
                     | Inr p \<Rightarrow>
                         (case randrange l drawn2 of
                            Inl e \<Rightarrow> Inl e
                          | Inr j \<Rightarrow>
                              (case list_index primes j of
                                 Inl e \<Rightarrow> Inl e
                               | Inr q \<Rightarrow> Inr (p * q))))))"

section \<open>Factor recovery\<close>

text \<open>
  Modelled from the spec: the FactorRecoverer.  The notebook describes this step in a
  markdown cell only ("p and q can be found by computing gcd(x^(r/2) +- 1, N) as long as
  x^(r/2) is not +-1") and has no code for it.  The definitions below follow the
  specification's contract: compute \<open>y = x\<^bsup>r/2\<^esup> mod N\<close>; an odd period or one below 2
  is \<open>InvalidPeriod\<close>; \<open>y\<close> congruent to \<open>N - 1\<close> or to 1 is \<open>RecoveryFailed\<close>; otherwise the
  nontrivial ones among \<open>gcd(y - 1, N)\<close> and \<open>gcd(y + 1, N)\<close> are returned, and
  \<open>RecoveryFailed\<close> when there is none.
\<close>

datatype recovery_error = InvalidPeriod | RecoveryFailed

definition recovery_root :: "int \<Rightarrow> int \<Rightarrow> nat \<Rightarrow> int" where
  "recovery_root x N r = x ^ (r div 2) mod N"

definition nontrivial_divisor :: "int \<Rightarrow> int \<Rightarrow> bool" where
  "nontrivial_divisor d N \<longleftrightarrow> d dvd N \<and> 1 < d \<and> d < N"

definition factor_recover :: "int \<Rightarrow> int \<Rightarrow> nat \<Rightarrow> recovery_error + int list" where
  "factor_recover x N r =
     (if odd r \<or> r < 2 then Inl InvalidPeriod
      else
        let y = recovery_root x N r in
        if y = (N - 1) mod N \<or> y = 1 mod N then Inl RecoveryFailed
        else
          let d_plus = gcd (y - 1) N;
              d_minus = gcd (y + 1) N;
              found = filter (\<lambda>d. nontrivial_divisor d N) [d_plus, d_minus]
          in if found = [] then Inl RecoveryFailed else Inr found)"

section \<open>Specification vocabulary\<close>

text \<open>
  Primality, by trial division; and the list the specification asks of the bounded prime
  list: the primes below \<open>n\<close> in increasing order.
\<close>

definition is_prime :: "int \<Rightarrow> bool" where
  "is_prime p \<longleftrightarrow> 1 < p \<and> list_all (\<lambda>d. \<not> d dvd p) [2..p - 1]"

definition primes_below :: "int \<Rightarrow> int list" where
  "primes_below n = filter is_prime [2..n - 1]"

text \<open>
  The property of the dictionary that the sieve is said to maintain, read at the moment
  the generator is about to test candidate \<open>q\<close>, having yielded \<open>ys\<close>: every entry
  \<open>c \<mapsto> p\<close> has an odd prime \<open>p\<close> that was yielded and an odd composite multiple \<open>c \<ge> q\<close> of
  it, and every odd value yielded is a prime that is the value of exactly one entry.
\<close>

definition table_tracks :: "(int \<rightharpoonup> int) \<Rightarrow> int \<Rightarrow> int list \<Rightarrow> bool" where
  "table_tracks D q ys \<longleftrightarrow>
     (\<forall>c p. D c = Some p \<longrightarrow>
        is_prime p \<and> odd p \<and> p \<in> set ys \<and> odd c \<and> \<not> is_prime c \<and> p dvd c \<and> q \<le> c)
     \<and> (\<forall>p. p \<in> set ys \<and> odd p \<longrightarrow>
          is_prime p \<and> (\<exists>c. D c = Some p \<and> (\<forall>c'. D c' = Some p \<longrightarrow> c' = c)))"

text \<open>
  The invariant that carries the proofs.  Besides the above it records that the dictionary
  is finite, and for every entry \<open>c \<mapsto> p\<close> that \<open>p\<^sup>2 \<le> c\<close> and that every odd multiple of \<open>p\<close>
  from \<open>p\<^sup>2\<close> on that lies between the candidate and \<open>c\<close> is a key of the dictionary: those
  are the multiples the inner loop stepped over.
\<close>

definition entry_ok :: "(int \<rightharpoonup> int) \<Rightarrow> int \<Rightarrow> int \<Rightarrow> int \<Rightarrow> bool" where
  "entry_ok D q c p \<longleftrightarrow>
     is_prime p \<and> odd p \<and> p < q \<and> p dvd c \<and> odd c \<and> q \<le> c \<and> p * p \<le> c
     \<and> (\<forall>m. odd m \<and> p dvd m \<and> p * p \<le> m \<and> q \<le> m \<and> m < c \<longrightarrow> m \<in> dom D)"

definition sieve_inv :: "(int \<rightharpoonup> int) \<Rightarrow> int \<Rightarrow> bool" where
  "sieve_inv D q \<longleftrightarrow>
     finite (dom D) \<and> 3 \<le> q \<and> odd q
     \<and> (\<forall>c p. D c = Some p \<longrightarrow> entry_ok D q c p)
     \<and> (\<forall>p. is_prime p \<and> odd p \<and> p < q \<longrightarrow> (\<exists>c. D c = Some p))
     \<and> (\<forall>c c' p. D c = Some p \<and> D c' = Some p \<longrightarrow> c = c')"

section \<open>Properties of the period finder\<close>

lemma find_period_loop_exit: "find_period_loop fuel 1 x N n = Some (Inr n)"
  by (cases fuel) simp_all

lemma power_mod_cycle:
  fixes x N :: int
  assumes N: "1 < N" and cop: "coprime x N"
  shows "\<exists>d. 1 \<le> d \<and> d \<le> nat N \<and> x ^ d mod N = 1"
proof -
  let ?f = "\<lambda>k::nat. x ^ k mod N"
  have img: "?f ` {0..nat N} \<subseteq> {0..<N}"
    using N by auto
  have "card (?f ` {0..nat N}) \<le> card {0..<N}"
    by (rule card_mono) (use img in auto)
  then have "card (?f ` {0..nat N}) < card {0..nat N}"
    using N by simp
  then have "\<not> inj_on ?f {0..nat N}"
    using pigeonhole by blast
  then obtain a b where ab: "a \<le> nat N" "b \<le> nat N" "a \<noteq> b" "?f a = ?f b"
    by (auto simp: inj_on_def)
  define i where "i = min a b"
  define j where "j = max a b"
  have ij: "i < j" "j \<le> nat N" "x ^ i mod N = x ^ j mod N"
    using ab by (auto simp: i_def j_def min_def max_def)
  have "N dvd x ^ j - x ^ i"
    using ij(3) by (metis mod_eq_dvd_iff)
  moreover have "x ^ j - x ^ i = x ^ i * (x ^ (j - i) - 1)"
    using ij(1) by (simp add: algebra_simps flip: power_add)
  ultimately have "N dvd x ^ i * (x ^ (j - i) - 1)" by simp
  moreover have "coprime N (x ^ i)"
    using cop by (simp add: coprime_commute)
  ultimately have "N dvd x ^ (j - i) - 1"
    by (simp add: coprime_dvd_mult_right_iff)
  then have "x ^ (j - i) mod N = 1 mod N"
    by (simp add: mod_eq_dvd_iff)
  then have "x ^ (j - i) mod N = 1" using N by simp
  then show ?thesis using ij by (intro exI[of _ "j - i"]) auto
qed

lemma power_mod_not_one:
  fixes x N :: int
  assumes "1 < N" "gcd x N \<noteq> 1" "1 \<le> k"
  shows "x ^ k mod N \<noteq> 1"
proof
  assume h: "x ^ k mod N = 1"
  have "x dvd x ^ k" using assms(3) by (simp add: dvd_power)
  then have "gcd x N dvd x ^ k" by (rule dvd_trans[OF gcd_dvd1])
  moreover have "gcd x N dvd N" by simp
  ultimately have "gcd x N dvd x ^ k mod N" by (simp add: dvd_mod)
  then have "gcd x N dvd 1" using h by simp
  then show False using assms(2) by simp
qed

lemma find_period_loop_returns:
  assumes "N \<noteq> 0" "t \<noteq> 1" "1 \<le> k" "k \<le> fuel"
    and "\<forall>j. 1 \<le> j \<and> j < k \<longrightarrow> (t * x ^ j) mod N \<noteq> 1"
    and "(t * x ^ k) mod N = 1"
  shows "find_period_loop fuel t x N n = Some (Inr (n + int k))"
  using assms
proof (induction fuel arbitrary: t n k)
  case 0
  then show ?case by simp
next
  case (Suc fuel)
  let ?t = "(t * x) mod N"
  show ?case
  proof (cases "k = 1")
    case True
    then have "?t = 1" using Suc.prems by simp
    then show ?thesis using Suc.prems True by (simp add: find_period_loop_exit)
  next
    case False
    then have k: "2 \<le> k" using Suc.prems by simp
    have shift: "(?t * x ^ j) mod N = (t * x ^ Suc j) mod N" for j
    proof -
      have "(?t * x ^ j) mod N = (t * x * x ^ j) mod N"
        by (rule mod_mult_left_eq)
      also have "t * x * x ^ j = t * x ^ Suc j" by simp
      finally show ?thesis .
    qed
    have "1 \<le> (1::nat) \<and> 1 < k" using k by simp
    then have "(t * x ^ 1) mod N \<noteq> 1" using Suc.prems(5) by blast
    then have t1: "?t \<noteq> 1" by simp
    have "find_period_loop fuel ?t x N (n + 1) = Some (Inr ((n + 1) + int (k - 1)))"
    proof (rule Suc.IH)
      show "N \<noteq> 0" by fact
      show "?t \<noteq> 1" by fact
      show "1 \<le> k - 1" using k by simp
      show "k - 1 \<le> fuel" using Suc.prems by simp
      show "\<forall>j. 1 \<le> j \<and> j < k - 1 \<longrightarrow> (?t * x ^ j) mod N \<noteq> 1"
      proof (intro allI impI)
        fix j assume "1 \<le> j \<and> j < k - 1"
        then have "1 \<le> Suc j \<and> Suc j < k" by arith
        then have "(t * x ^ Suc j) mod N \<noteq> 1" using Suc.prems(5) by blast
        then show "(?t * x ^ j) mod N \<noteq> 1" unfolding shift .
      qed
      have "Suc (k - 1) = k" using k by simp
      then show "(?t * x ^ (k - 1)) mod N = 1"
        using Suc.prems(6) shift[of "k - 1"] by (simp del: power_Suc)
    qed
    then show ?thesis using Suc.prems k by simp
  qed
qed

lemma find_period_loop_starves:
  assumes "N \<noteq> 0" "t \<noteq> 1"
    and "\<forall>j. 1 \<le> j \<and> j \<le> fuel \<longrightarrow> (t * x ^ j) mod N \<noteq> 1"
  shows "find_period_loop fuel t x N n = None"
  using assms
proof (induction fuel arbitrary: t n)
  case 0
  then show ?case by simp
next
  case (Suc fuel)
  let ?t = "(t * x) mod N"
  have shift: "(?t * x ^ j) mod N = (t * x ^ Suc j) mod N" for j
  proof -
    have "(?t * x ^ j) mod N = (t * x * x ^ j) mod N"
      by (rule mod_mult_left_eq)
    also have "t * x * x ^ j = t * x ^ Suc j" by simp
    finally show ?thesis .
  qed
  have t1: "?t \<noteq> 1" using Suc.prems(3)[rule_format, of 1] by simp
  have "find_period_loop fuel ?t x N (n + 1) = None"
  proof (rule Suc.IH)
    show "N \<noteq> 0" by fact
    show "?t \<noteq> 1" by fact
    show "\<forall>j. 1 \<le> j \<and> j \<le> fuel \<longrightarrow> (?t * x ^ j) mod N \<noteq> 1"
    proof (intro allI impI)
      fix j assume "1 \<le> j \<and> j \<le> fuel"
      then have "1 \<le> Suc j \<and> Suc j \<le> Suc fuel" by arith
      then have "(t * x ^ Suc j) mod N \<noteq> 1" using Suc.prems(3) by blast
      then show "(?t * x ^ j) mod N \<noteq> 1" unfolding shift .
    qed
  qed
  then show ?case using Suc.prems by simp
qed

lemma find_period_classical_returns:
  assumes "N \<noteq> 0" "x \<noteq> 1" "2 \<le> r" "r - 1 \<le> fuel"
    and "\<forall>k. 2 \<le> k \<and> k < r \<longrightarrow> x ^ k mod N \<noteq> 1"
    and "x ^ r mod N = 1"
  shows "find_period_classical fuel x N = Some (Inr (int r))"
proof -
  have "find_period_loop fuel x x N 1 = Some (Inr (1 + int (r - 1)))"
  proof (rule find_period_loop_returns)
    show "N \<noteq> 0" "x \<noteq> 1" "r - 1 \<le> fuel" by fact+
    show "1 \<le> r - 1" using assms(3) by simp
    show "\<forall>j. 1 \<le> j \<and> j < r - 1 \<longrightarrow> (x * x ^ j) mod N \<noteq> 1"
    proof (intro allI impI)
      fix j assume "1 \<le> j \<and> j < r - 1"
      then have "2 \<le> Suc j \<and> Suc j < r" by arith
      then have "x ^ Suc j mod N \<noteq> 1" using assms(5) by blast
      then show "(x * x ^ j) mod N \<noteq> 1" by simp
    qed
    have "Suc (r - 1) = r" using assms(3) by simp
    then have "x * x ^ (r - 1) = x ^ r" by (metis power_Suc)
    then show "(x * x ^ (r - 1)) mod N = 1" using assms(6) by simp
  qed
  moreover have "1 + int (r - 1) = int r" using assms(3) by simp
  ultimately show ?thesis by (simp add: find_period_classical_def)
qed

lemma find_period_classical_starves:
  assumes "N \<noteq> 0" "x \<noteq> 1"
    and "\<forall>k. 2 \<le> k \<and> k \<le> Suc fuel \<longrightarrow> x ^ k mod N \<noteq> 1"
  shows "find_period_classical fuel x N = None"
proof -
  have "find_period_loop fuel x x N 1 = None"
  proof (rule find_period_loop_starves)
    show "N \<noteq> 0" "x \<noteq> 1" by fact+
    show "\<forall>j. 1 \<le> j \<and> j \<le> fuel \<longrightarrow> (x * x ^ j) mod N \<noteq> 1"
    proof (intro allI impI)
      fix j assume "1 \<le> j \<and> j \<le> fuel"
      then have "2 \<le> Suc j \<and> Suc j \<le> Suc fuel" by arith
      then have "x ^ Suc j mod N \<noteq> 1" using assms(3) by blast
      then show "(x * x ^ j) mod N \<noteq> 1" by simp
    qed
  qed
  then show ?thesis by (simp add: find_period_classical_def)
qed

lemma least_period_from_two:
  fixes x N :: int
  assumes N: "1 < N" and cop: "coprime x N"
  shows "\<exists>r. 2 \<le> r \<and> r \<le> nat N \<and> x ^ r mod N = 1
           \<and> (\<forall>k. 2 \<le> k \<and> k < r \<longrightarrow> x ^ k mod N \<noteq> 1)
           \<and> (x mod N \<noteq> 1 \<longrightarrow> (\<forall>k. 1 \<le> k \<and> k < r \<longrightarrow> x ^ k mod N \<noteq> 1))"
proof -
  define P where "P k \<longleftrightarrow> 2 \<le> k \<and> x ^ k mod N = 1" for k :: nat
  obtain d where d: "1 \<le> d" "d \<le> nat N" "x ^ d mod N = 1"
    using power_mod_cycle[OF N cop] by blast
  have "\<exists>k. P k \<and> k \<le> nat N"
  proof (cases "d = 1")
    case True
    then have x1: "x mod N = 1" using d(3) by simp
    have "x ^ 2 mod N = (x mod N) ^ 2 mod N" by (simp add: power_mod)
    then have "x ^ 2 mod N = 1" using x1 N by simp
    then have "P 2" by (simp add: P_def)
    moreover have "2 \<le> nat N" using N by simp
    ultimately show ?thesis by blast
  next
    case False
    then have "P d" using d by (simp add: P_def)
    then show ?thesis using d(2) by blast
  qed
  then obtain k0 where k0: "P k0" "k0 \<le> nat N" by blast
  define r where "r = (LEAST k. P k)"
  have Pr: "P r" unfolding r_def using k0(1) by (rule LeastI)
  have rle: "r \<le> k0" unfolding r_def using k0(1) by (rule Least_le)
  have least: "\<not> P k" if "k < r" for k
    using that unfolding r_def by (rule not_less_Least)
  have a: "\<forall>k. 2 \<le> k \<and> k < r \<longrightarrow> x ^ k mod N \<noteq> 1"
    using least by (auto simp: P_def)
  have b: "x mod N \<noteq> 1 \<longrightarrow> (\<forall>k. 1 \<le> k \<and> k < r \<longrightarrow> x ^ k mod N \<noteq> 1)"
  proof (intro impI allI)
    fix k assume x1: "x mod N \<noteq> 1" and k: "1 \<le> k \<and> k < r"
    show "x ^ k mod N \<noteq> 1"
    proof (cases "k = 1")
      case True
      then show ?thesis using x1 by simp
    next
      case False
      then have "2 \<le> k \<and> k < r" using k by arith
      then show ?thesis using a by blast
    qed
  qed
  show ?thesis
    using Pr rle k0(2) a b by (intro exI[of _ r]) (simp add: P_def)
qed


text \<open>
  Claim C9.  With base \<open>x = 1\<close> the guard \<open>t != 1\<close> fails at once: for every modulus \<open>N\<close>
  (zero and negative ones included) the function returns 1.  It does so with any fuel,
  also with none, that is without one execution of the loop body; and for \<open>N = 0\<close>, where
  a single \<^verbatim>\<open>t %= N\<close> would have raised, no exception appears.
\<close>

theorem find_period_classical_one:
  "find_period_classical fuel 1 N = Some (Inr 1)
   \<and> find_period_classical 0 1 N = Some (Inr 1)
   \<and> find_period_classical fuel 1 0 = Some (Inr 1)"
  by (simp add: find_period_classical_def find_period_loop_exit)

text \<open>
  Claim C8.  For \<open>x = 2\<close> and \<open>N = 15\<close> the loop body runs three times (two executions are
  not enough) and the function returns 4; with \<open>y = 2\<^sup>2 mod 15 = 4\<close> the two greatest common
  divisors are 3 and 5, whose product is 15.
\<close>

theorem find_period_classical_2_15:
  "find_period_classical 3 2 15 = Some (Inr 4)
   \<and> find_period_classical 2 2 15 = None
   \<and> (2::int) ^ 2 mod 15 = 4
   \<and> gcd ((4::int) - 1) 15 = 3
   \<and> gcd ((4::int) + 1) 15 = 5
   \<and> (3::int) * 5 = 15"
  by (simp add: find_period_classical_def eval_nat_numeral)

text \<open>
  Claim C1, as amended.  For every base \<open>x \<ge> 2\<close> coprime to a modulus \<open>N > 1\<close>, and with
  fuel for \<open>N\<close> iterations or more, the function returns the smallest \<open>r \<ge> 2\<close> with
  \<open>x\<^sup>r mod N = 1\<close>.  The first test of the loop compares \<open>x\<close> itself with 1, not
  \<open>x mod N\<close>, so the exponent 1 is never examined; whenever \<open>x mod N \<noteq> 1\<close> (in particular for
  \<open>2 \<le> x < N\<close>) the result is the smallest \<open>r \<ge> 1\<close> with \<open>x\<^sup>r mod N = 1\<close>, the multiplicative
  order of \<open>x\<close> modulo \<open>N\<close>.
\<close>

theorem find_period_classical_least:
  assumes "2 \<le> x" "1 < N" "gcd x N = 1" "nat N \<le> fuel"
  shows "\<exists>r. find_period_classical fuel x N = Some (Inr (int r))
           \<and> 2 \<le> r \<and> x ^ r mod N = 1
           \<and> (\<forall>k. 2 \<le> k \<and> k < r \<longrightarrow> x ^ k mod N \<noteq> 1)
           \<and> (x mod N \<noteq> 1 \<longrightarrow> (\<forall>k. 1 \<le> k \<and> k < r \<longrightarrow> x ^ k mod N \<noteq> 1))"
proof -
  have cop: "coprime x N" using assms(3) by (simp add: coprime_iff_gcd_eq_1)
  obtain r where r: "2 \<le> r" "r \<le> nat N" "x ^ r mod N = 1"
      "\<forall>k. 2 \<le> k \<and> k < r \<longrightarrow> x ^ k mod N \<noteq> 1"
      "x mod N \<noteq> 1 \<longrightarrow> (\<forall>k. 1 \<le> k \<and> k < r \<longrightarrow> x ^ k mod N \<noteq> 1)"
    using least_period_from_two[OF assms(2) cop] by blast
  have "find_period_classical fuel x N = Some (Inr (int r))"
  proof (rule find_period_classical_returns)
    show "N \<noteq> 0" "x \<noteq> 1" using assms by auto
    show "2 \<le> r" by fact
    show "r - 1 \<le> fuel" using r(2) assms(4) by simp
    show "\<forall>k. 2 \<le> k \<and> k < r \<longrightarrow> x ^ k mod N \<noteq> 1" by fact
    show "x ^ r mod N = 1" by fact
  qed
  then show ?thesis using r by blast
qed

theorem find_period_classical_least_witness:
  "find_period_classical 15 2 15 = Some (Inr 4) \<and> (2::int) ^ 4 mod 15 = 1
   \<and> (2::int) ^ 1 mod 15 \<noteq> 1 \<and> (2::int) ^ 2 mod 15 \<noteq> 1 \<and> (2::int) ^ 3 mod 15 \<noteq> 1"
proof -
  have h: "(2::int) \<le> 2" "(1::int) < 15" "gcd (2::int) 15 = 1" "nat 15 \<le> (15::nat)"
    by simp_all
  have e: "find_period_classical 15 2 15 = Some (Inr 4)"
    by (simp add: find_period_classical_def eval_nat_numeral)
  from find_period_classical_least[OF h]
  obtain r where r: "find_period_classical 15 2 15 = Some (Inr (int r))"
      "(2::int) mod 15 \<noteq> 1 \<longrightarrow> (\<forall>k. 1 \<le> k \<and> k < r \<longrightarrow> (2::int) ^ k mod 15 \<noteq> 1)"
      "(2::int) ^ r mod 15 = 1"
    by blast
  have r4: "r = 4" using r(1) e by simp
  have "\<forall>k. 1 \<le> k \<and> k < (4::nat) \<longrightarrow> (2::int) ^ k mod 15 \<noteq> 1"
    using r(2) r4 by simp
  then have a: "(2::int) ^ k mod 15 \<noteq> 1" if "1 \<le> k \<and> k < 4" for k
    using that by blast
  have "(2::int) ^ 1 mod 15 \<noteq> 1" "(2::int) ^ 2 mod 15 \<noteq> 1" "(2::int) ^ 3 mod 15 \<noteq> 1"
    using a[of 1] a[of 2] a[of 3] by simp_all
  then show ?thesis using e r(3) r4 by simp
qed

text \<open>
  Claim C1 as stated fails: \<open>x = 4\<close>, \<open>N = 3\<close> satisfy \<open>2 \<le> x\<close>, \<open>N > 1\<close> and \<open>gcd(x, N) = 1\<close>,
  the function returns 2 (after one iteration, and with more fuel as well), yet already
  \<open>4\<^sup>1 mod 3 = 1\<close> with \<open>1 \<le> 1 < 2\<close>.
\<close>

theorem find_period_classical_not_least_4_3:
  "2 \<le> (4::int) \<and> (1::int) < 3 \<and> gcd (4::int) 3 = 1
   \<and> find_period_classical 1 4 3 = Some (Inr 2)
   \<and> find_period_classical 3 4 3 = Some (Inr 2)
   \<and> (1::nat) \<le> 1 \<and> (1::nat) < 2 \<and> (4::int) ^ 1 mod 3 = 1"
proof -
  have "gcd (4::int) 3 = 1" by code_simp
  then show ?thesis by (simp add: find_period_classical_def eval_nat_numeral)
qed

text \<open>
  Claim C3.  For \<open>x \<ge> 2\<close> coprime to \<open>N > 1\<close> the loop terminates: there is a number \<open>k\<close> of
  iterations, at most \<open>N\<close>, after which \<open>t = 1\<close> and the function returns \<open>1 + k\<close>; less fuel
  than \<open>k\<close> does not reach the exit, and any fuel from \<open>k\<close> on gives the same result.
\<close>

theorem find_period_classical_terminates:
  assumes "2 \<le> x" "1 < N" "gcd x N = 1"
  shows "\<exists>k. k \<le> nat N
           \<and> find_period_classical k x N = Some (Inr (1 + int k))
           \<and> (\<forall>f. f < k \<longrightarrow> find_period_classical f x N = None)
           \<and> (\<forall>f. k \<le> f \<longrightarrow> find_period_classical f x N = Some (Inr (1 + int k)))"
proof -
  have cop: "coprime x N" using assms(3) by (simp add: coprime_iff_gcd_eq_1)
  obtain r where r: "2 \<le> r" "r \<le> nat N" "x ^ r mod N = 1"
      "\<forall>k. 2 \<le> k \<and> k < r \<longrightarrow> x ^ k mod N \<noteq> 1"
    using least_period_from_two[OF assms(2) cop] by blast
  have N0: "N \<noteq> 0" and x1: "x \<noteq> 1" using assms by auto
  have ret: "find_period_classical f x N = Some (Inr (1 + int (r - 1)))" if "r - 1 \<le> f" for f
  proof -
    have "find_period_classical f x N = Some (Inr (int r))"
      using N0 x1 r(1) that r(4) r(3) by (rule find_period_classical_returns)
    moreover have "1 + int (r - 1) = int r" using r(1) by simp
    ultimately show ?thesis by simp
  qed
  have starve: "find_period_classical f x N = None" if "f < r - 1" for f
  proof (rule find_period_classical_starves[OF N0 x1], intro allI impI)
    fix k assume "2 \<le> k \<and> k \<le> Suc f"
    then have "2 \<le> k \<and> k < r" using that by arith
    then show "x ^ k mod N \<noteq> 1" using r(4) by blast
  qed
  have "r - 1 \<le> nat N" using r(2) by simp
  then show ?thesis using ret starve by (intro exI[of _ "r - 1"]) simp
qed

theorem find_period_classical_terminates_witness:
  "(2::int) \<le> 7 \<and> (1::int) < 15 \<and> gcd (7::int) 15 = 1
   \<and> (\<exists>k. k \<le> nat 15 \<and> find_period_classical k 7 15 = Some (Inr (1 + int k)))
   \<and> find_period_classical 3 7 15 = Some (Inr 4)"
proof -
  have g: "gcd (7::int) 15 = 1" by code_simp
  have h: "(2::int) \<le> 7" "(1::int) < 15" by simp_all
  have e: "find_period_classical 3 7 15 = Some (Inr 4)"
    by (simp add: find_period_classical_def eval_nat_numeral)
  from find_period_classical_terminates[OF h g]
  have "\<exists>k. k \<le> nat 15 \<and> find_period_classical k 7 15 = Some (Inr (1 + int k))"
    by blast
  then show ?thesis using g e by simp
qed

text \<open>
  Claim C4.  For \<open>x \<ge> 2\<close> and \<open>N > 1\<close> that share a factor, no power \<open>x\<^sup>k mod N\<close> with
  \<open>k \<ge> 1\<close> equals 1, so the loop state \<open>t\<close> is never 1: whatever the number of iterations
  allowed, the loop has not left through its exit \<open>t = 1\<close>.
\<close>

theorem find_period_classical_diverges:
  assumes "2 \<le> x" "1 < N" "gcd x N \<noteq> 1"
  shows "(\<forall>k. 1 \<le> k \<longrightarrow> x ^ k mod N \<noteq> 1)
         \<and> (\<forall>fuel. find_period_classical fuel x N = None)"
proof -
  have p: "x ^ k mod N \<noteq> 1" if "1 \<le> k" for k
    using assms(2,3) that by (rule power_mod_not_one)
  have "find_period_classical fuel x N = None" for fuel
  proof (rule find_period_classical_starves)
    show "N \<noteq> 0" "x \<noteq> 1" using assms by auto
    show "\<forall>k. 2 \<le> k \<and> k \<le> Suc fuel \<longrightarrow> x ^ k mod N \<noteq> 1" using p by simp
  qed
  then show ?thesis using p by simp
qed

theorem find_period_classical_diverges_witness:
  "(2::int) \<le> 6 \<and> (1::int) < 15 \<and> gcd (6::int) 15 \<noteq> 1
   \<and> (6::int) ^ 1 mod 15 \<noteq> 1 \<and> (6::int) ^ 2 mod 15 \<noteq> 1
   \<and> find_period_classical 20 6 15 = None"
proof -
  have g: "gcd (6::int) 15 = 3" by code_simp
  then have g1: "gcd (6::int) 15 \<noteq> 1" by simp
  have h: "(2::int) \<le> 6" "(1::int) < 15" by simp_all
  from find_period_classical_diverges[OF h g1]
  have "(6::int) ^ 1 mod 15 \<noteq> 1" "(6::int) ^ 2 mod 15 \<noteq> 1"
    "find_period_classical 20 6 15 = None"
    by simp_all
  then show ?thesis using g1 by simp
qed

section \<open>Factor recovery from an even period\<close>

lemma recovery_root_range:
  assumes N: "1 < N" and r: "even r" and p: "x ^ r mod N = 1"
    and y1: "recovery_root x N r \<noteq> 1" and y2: "recovery_root x N r \<noteq> N - 1"
  shows "2 \<le> recovery_root x N r \<and> recovery_root x N r \<le> N - 2
         \<and> N dvd (recovery_root x N r - 1) * (recovery_root x N r + 1)"
proof -
  define y where "y = recovery_root x N r"
  have y_def': "y = x ^ (r div 2) mod N" by (simp add: y_def recovery_root_def)
  have rng: "0 \<le> y" "y < N" using N by (simp_all add: y_def')
  have "y ^ 2 mod N = (x ^ (r div 2)) ^ 2 mod N"
    unfolding y_def' by (rule power_mod)
  also have "(x ^ (r div 2)) ^ 2 = x ^ r"
    using r by (simp flip: power_mult)
  finally have sq: "y ^ 2 mod N = 1" using p by simp
  have "y \<noteq> 0"
  proof
    assume "y = 0"
    then have "y ^ 2 mod N = 0" by simp
    then show False using sq by simp
  qed
  then have lo: "2 \<le> y" using rng(1) y1 by (simp add: y_def)
  have hi: "y \<le> N - 2" using rng(2) y2 by (simp add: y_def)
  have "y ^ 2 mod N = 1 mod N" using sq N by simp
  then have "N dvd y ^ 2 - 1" by (simp add: mod_eq_dvd_iff)
  moreover have "y ^ 2 - 1 = (y - 1) * (y + 1)"
    by (simp add: power2_eq_square algebra_simps)
  ultimately have "N dvd (y - 1) * (y + 1)" by simp
  then show ?thesis using lo hi by (simp add: y_def)
qed

lemma recovery_gcds_nontrivial:
  assumes N: "1 < N" and lo: "2 \<le> y" and hi: "y \<le> N - 2"
    and d: "N dvd (y - 1) * (y + 1)"
  shows "nontrivial_divisor (gcd (y - 1) N) N" "nontrivial_divisor (gcd (y + 1) N) N"
proof -
  have le1: "gcd (y - 1) N \<le> y - 1"
    using lo by (intro zdvd_imp_le) simp_all
  have le2: "gcd (y + 1) N \<le> y + 1"
    using lo by (intro zdvd_imp_le) simp_all
  have pos1: "0 < gcd (y - 1) N" and pos2: "0 < gcd (y + 1) N"
    using N by (simp_all add: gcd_pos_int)
  have ne1: "gcd (y - 1) N \<noteq> 1"
  proof
    assume "gcd (y - 1) N = 1"
    then have "coprime N (y - 1)" by (simp add: coprime_iff_gcd_eq_1 gcd.commute)
    then have "N dvd y + 1" using d by (simp add: coprime_dvd_mult_right_iff)
    then have "N \<le> y + 1" using lo by (intro zdvd_imp_le) simp_all
    then show False using hi by simp
  qed
  have ne2: "gcd (y + 1) N \<noteq> 1"
  proof
    assume "gcd (y + 1) N = 1"
    then have "coprime N (y + 1)" by (simp add: coprime_iff_gcd_eq_1 gcd.commute)
    then have "N dvd y - 1" using d by (simp add: coprime_dvd_mult_left_iff)
    then have "N \<le> y - 1" using lo by (intro zdvd_imp_le) simp_all
    then show False using hi by simp
  qed
  have "1 < gcd (y - 1) N" "gcd (y - 1) N < N"
    using le1 pos1 ne1 hi by linarith+
  then show "nontrivial_divisor (gcd (y - 1) N) N"
    unfolding nontrivial_divisor_def by simp
  have "1 < gcd (y + 1) N" "gcd (y + 1) N < N"
    using le2 pos2 ne2 hi by linarith+
  then show "nontrivial_divisor (gcd (y + 1) N) N"
    unfolding nontrivial_divisor_def by simp
qed

text \<open>
  Claim C5.  Let \<open>N > 1\<close>, let \<open>r \<ge> 2\<close> be even with \<open>x\<^sup>r mod N = 1\<close>, and let
  \<open>y = x\<^bsup>r/2\<^esup> mod N\<close>.  If \<open>y \<noteq> 1\<close> and \<open>y \<noteq> N - 1\<close> then at least one of \<open>gcd(y - 1, N)\<close> and
  \<open>gcd(y + 1, N)\<close> lies strictly between 1 and \<open>N\<close> (and divides \<open>N\<close>).  In fact both do, so
  the recovery step of the specification succeeds and returns both.
\<close>

theorem factor_recover_nontrivial:
  assumes "1 < N" "even r" "2 \<le> r" "x ^ r mod N = 1"
    and "y = x ^ (r div 2) mod N" "y \<noteq> 1" "y \<noteq> N - 1"
  shows "y = recovery_root x N r
         \<and> (nontrivial_divisor (gcd (y - 1) N) N \<or> nontrivial_divisor (gcd (y + 1) N) N)
         \<and> (1 < gcd (y - 1) N \<and> gcd (y - 1) N < N \<or> 1 < gcd (y + 1) N \<and> gcd (y + 1) N < N)
         \<and> factor_recover x N r = Inr [gcd (y - 1) N, gcd (y + 1) N]"
proof -
  have y: "y = recovery_root x N r" using assms(5) by (simp add: recovery_root_def)
  have rr: "2 \<le> y \<and> y \<le> N - 2 \<and> N dvd (y - 1) * (y + 1)"
    using recovery_root_range[OF assms(1,2,4)] assms(6,7) unfolding y[symmetric] by blast
  then have nt: "nontrivial_divisor (gcd (y - 1) N) N" "nontrivial_divisor (gcd (y + 1) N) N"
    using recovery_gcds_nontrivial[OF assms(1)] by blast+
  have m1: "(N - 1) mod N = N - 1"
    by (rule mod_pos_pos_trivial) (use assms(1) in simp_all)
  have m2: "1 mod N = 1" using assms(1) by simp
  have "factor_recover x N r = Inr [gcd (y - 1) N, gcd (y + 1) N]"
    using assms(2,3,6,7) nt unfolding factor_recover_def y[symmetric] m1 m2
    by (simp add: Let_def)
  then show ?thesis using y nt by (simp add: nontrivial_divisor_def)
qed

theorem factor_recover_nontrivial_witness:
  "(1::int) < 21 \<and> even (6::nat) \<and> (2::nat) \<le> 6 \<and> (2::int) ^ 6 mod 21 = 1
   \<and> (8::int) = 2 ^ (6 div 2) mod 21 \<and> (8::int) \<noteq> 1 \<and> (8::int) \<noteq> 21 - 1
   \<and> factor_recover 2 21 6 = Inr [7, 3]"
proof -
  have h: "(1::int) < 21" "even (6::nat)" "(2::nat) \<le> 6" "(2::int) ^ 6 mod 21 = 1"
    "(8::int) = 2 ^ (6 div 2) mod 21" "(8::int) \<noteq> 1" "(8::int) \<noteq> 21 - 1"
    by simp_all
  have g: "gcd (7::int) 21 = 7" "gcd (9::int) 21 = 3" by code_simp+
  from factor_recover_nontrivial[OF h]
  have "factor_recover 2 21 6 = Inr [gcd (8 - 1) 21, gcd (8 + 1) 21]"
    by blast
  then have "factor_recover 2 21 6 = Inr [7, 3]" using g by simp
  then show ?thesis using h by simp
qed

section \<open>Properties of the sieve\<close>

subsection \<open>Primes\<close>

lemma is_prime_iff:
  "is_prime p \<longleftrightarrow> 1 < p \<and> (\<forall>d. 1 < d \<and> d < p \<longrightarrow> \<not> d dvd p)"
  by (auto simp: is_prime_def list_all_iff)

lemma least_divisor:
  fixes n :: int
  assumes "1 < n"
  shows "\<exists>p. 1 < p \<and> p dvd n \<and> (\<forall>d. 1 < d \<and> d dvd n \<longrightarrow> p \<le> d)"
proof -
  define P where "P d \<longleftrightarrow> 1 < d \<and> d dvd n" for d
  have "P n" using assms by (simp add: P_def)
  then obtain p where p: "P p" "\<forall>y. P y \<longrightarrow> nat p \<le> nat y"
    using ex_has_least_nat[of P n nat] by blast
  have "p \<le> d" if "1 < d \<and> d dvd n" for d
  proof -
    have "nat p \<le> nat d" using p(2) that by (simp add: P_def)
    then show ?thesis using that by linarith
  qed
  then show ?thesis using p(1) by (auto simp: P_def)
qed

lemma prime_factor:
  fixes n :: int
  assumes "1 < n"
  shows "\<exists>p. is_prime p \<and> p dvd n \<and> (\<not> is_prime n \<longrightarrow> p * p \<le> n)"
proof -
  obtain p where p: "1 < p" "p dvd n" "\<And>d. 1 < d \<and> d dvd n \<Longrightarrow> p \<le> d"
    using least_divisor[OF assms] by blast
  have prime: "is_prime p"
    unfolding is_prime_iff
  proof (intro conjI allI impI)
    show "1 < p" by fact
    fix d assume d: "1 < d \<and> d < p"
    show "\<not> d dvd p"
    proof
      assume "d dvd p"
      then have "d dvd n" using p(2) by (rule dvd_trans)
      then have "p \<le> d" using d p(3) by blast
      then show False using d by simp
    qed
  qed
  have sq: "p * p \<le> n" if "\<not> is_prime n"
  proof -
    have "p \<noteq> n" using prime that by blast
    moreover have "p \<le> n" using p(2) assms by (intro zdvd_imp_le) simp_all
    ultimately have lt: "p < n" by simp
    obtain e where e: "n = p * e" using p(2) by (auto simp: dvd_def)
    have "1 < e"
    proof (rule ccontr)
      assume "\<not> 1 < e"
      then have "e \<le> 1" by simp
      then have "p * e \<le> p * 1" using p(1) by (intro mult_left_mono) simp_all
      then show False using lt e by simp
    qed
    moreover have "e dvd n" using e by simp
    ultimately have "p \<le> e" using p(3) by blast
    then have "p * p \<le> p * e" using p(1) by (intro mult_left_mono) simp_all
    then show ?thesis using e by simp
  qed
  show ?thesis using prime p(2) sq by blast
qed

lemma prime_above:
  fixes m :: int
  shows "\<exists>p. is_prime p \<and> m < p"
proof -
  define n :: int where "n = fact (nat m) + 1"
  have n1: "1 < n"
  proof -
    have "(0::int) < fact (nat m)" by simp
    then show ?thesis unfolding n_def by linarith
  qed
  obtain p where p: "is_prime p" "p dvd n"
    using prime_factor[OF n1] by blast
  have p1: "1 < p" using p(1) by (simp add: is_prime_iff)
  have "m < p"
  proof (rule ccontr)
    assume "\<not> m < p"
    then have le: "p \<le> m" by simp
    have "nat p dvd fact (nat m)"
      using p1 le by (intro dvd_fact) simp_all
    then have "int (nat p) dvd int (fact (nat m))" by (simp only: int_dvd_int_iff)
    then have "p dvd fact (nat m)" using p1 by simp
    then have "p dvd n - fact (nat m)" using p(2) by (rule dvd_diff[rotated])
    then have "p dvd 1" by (simp add: n_def)
    then show False using p1 by simp
  qed
  then show ?thesis using p(1) by blast
qed

lemma is_prime_odd:
  assumes "is_prime p" "2 < p"
  shows "odd p"
proof
  assume "even p"
  then have "(2::int) dvd p" .
  moreover have "1 < (2::int) \<and> 2 < p" using assms(2) by simp
  ultimately show False using assms(1) unfolding is_prime_iff by blast
qed

lemma even_not_prime: "even n \<Longrightarrow> 2 < n \<Longrightarrow> \<not> is_prime n"
  using is_prime_odd by blast

subsection \<open>The inner loop\<close>

lemma and_one_zero_iff_even: "(x AND 1 = 0) \<longleftrightarrow> even x" for x :: int
  by (simp add: and_one_eq even_iff_mod_2_eq_zero)

lemma next_multiple_continue:
  "x \<in> dom D \<or> even x \<Longrightarrow> next_multiple D p x = next_multiple D p (x + p)"
  by (subst next_multiple.simps) (simp add: and_one_zero_iff_even)

lemma next_multiple_stop:
  "x \<notin> dom D \<Longrightarrow> odd x \<Longrightarrow> next_multiple D p x = Some x"
  by (subst next_multiple.simps) (simp add: and_one_zero_iff_even)

lemma finite_int_bound:
  fixes S :: "int set"
  assumes "finite S"
  shows "\<exists>B. \<forall>c\<in>S. c < B"
proof (cases "S = {}")
  case True
  then show ?thesis by simp
next
  case False
  have "\<forall>c\<in>S. c < Max S + 1"
    using assms by (auto simp: less_iff_succ_less_eq)
  then show ?thesis by blast
qed

lemma next_multiple_returns:
  assumes fin: "finite (dom D)" and podd: "odd p" and pos: "0 < p"
  shows "\<exists>x. next_multiple D p x0 = Some x \<and> x0 \<le> x \<and> p dvd (x - x0)
             \<and> x \<notin> dom D \<and> odd x
             \<and> (\<forall>m. x0 \<le> m \<and> m < x \<and> p dvd (m - x0) \<longrightarrow> m \<in> dom D \<or> even m)"
proof -
  obtain B where B: "\<forall>c\<in>dom D. c < B"
    using finite_int_bound[OF fin] by blast
  define \<mu> where "\<mu> x = 2 * nat (B - x) + (if even x then 1 else 0)" for x
  show ?thesis
  proof (induction x0 rule: measure_induct_rule[of \<mu>])
    case (less x0)
    show ?case
    proof (cases "x0 \<in> dom D \<or> even x0")
      case False
      then have "next_multiple D p x0 = Some x0"
        by (simp add: next_multiple_stop)
      then show ?thesis using False by auto
    next
      case True
      have dec: "\<mu> (x0 + p) < \<mu> x0"
      proof (cases "x0 < B")
        case True
        then have c: "nat (B - (x0 + p)) < nat (B - x0)" using pos by linarith
        have a: "\<mu> (x0 + p) \<le> 2 * nat (B - (x0 + p)) + 1" by (simp add: \<mu>_def)
        have b: "2 * nat (B - x0) \<le> \<mu> x0" by (simp add: \<mu>_def)
        show ?thesis using a b c by linarith
      next
        case False
        then have "x0 \<notin> dom D" using B by auto
        then have "even x0" using True by blast
        moreover have "odd (x0 + p)" using \<open>even x0\<close> podd by simp
        moreover have "nat (B - x0) = 0" "nat (B - (x0 + p)) = 0" using False pos by simp_all
        ultimately show ?thesis by (simp add: \<mu>_def)
      qed
      from less.IH[OF dec] obtain x where x: "next_multiple D p (x0 + p) = Some x"
          "x0 + p \<le> x" "p dvd (x - (x0 + p))" "x \<notin> dom D" "odd x"
          "\<forall>m. x0 + p \<le> m \<and> m < x \<and> p dvd (m - (x0 + p)) \<longrightarrow> m \<in> dom D \<or> even m"
        by blast
      have r: "next_multiple D p x0 = Some x"
        using True x(1) by (simp add: next_multiple_continue)
      have d: "p dvd (x - x0)"
      proof -
        have "x - x0 = (x - (x0 + p)) + p" by simp
        then show ?thesis using x(3) by (metis dvd_add_triv_right_iff)
      qed
      have between: "m \<in> dom D \<or> even m" if m: "x0 \<le> m \<and> m < x \<and> p dvd (m - x0)" for m
      proof (cases "m = x0")
        case True
        then show ?thesis using \<open>x0 \<in> dom D \<or> even x0\<close> by simp
      next
        case False
        then have "0 < m - x0" using m by simp
        then have "p \<le> m - x0" using m by (intro zdvd_imp_le) simp_all
        moreover have "p dvd (m - (x0 + p))"
        proof -
          have "m - x0 = (m - (x0 + p)) + p" by simp
          then show ?thesis using m by (metis dvd_add_triv_right_iff)
        qed
        ultimately have "x0 + p \<le> m \<and> m < x \<and> p dvd (m - (x0 + p))" using m by simp
        then show ?thesis using x(6) by blast
      qed
      show ?thesis
        using r x(2,4,5) d between pos by (intro exI[of _ x]) auto
    qed
  qed
qed

subsection \<open>The invariant of the dictionary\<close>

lemma sieve_invD:
  assumes "sieve_inv D q"
  shows "finite (dom D)" "3 \<le> q" "odd q"
    and "\<And>c p. D c = Some p \<Longrightarrow> entry_ok D q c p"
    and "\<And>p. is_prime p \<Longrightarrow> odd p \<Longrightarrow> p < q \<Longrightarrow> \<exists>c. D c = Some p"
    and "\<And>c c' p. D c = Some p \<Longrightarrow> D c' = Some p \<Longrightarrow> c = c'"
  using assms unfolding sieve_inv_def by auto

lemma is_prime_gt1: "is_prime p \<Longrightarrow> 1 < p"
  by (simp add: is_prime_iff)

lemma is_prime_no_divisor: "is_prime q \<Longrightarrow> 1 < d \<Longrightarrow> d < q \<Longrightarrow> \<not> d dvd q"
  by (simp add: is_prime_iff)

lemma odd_gap:
  fixes a b :: int
  assumes "odd a" "odd b" "a < b"
  shows "a + 2 \<le> b"
proof -
  have "even (b - a)" using assms by simp
  then have "2 dvd (b - a)" .
  then obtain k where "b - a = 2 * k" unfolding dvd_def by blast
  then show ?thesis using assms(3) by presburger
qed

lemma tracked_iff_composite:
  assumes inv: "sieve_inv D q"
  shows "D q = None \<longleftrightarrow> is_prime q"
proof
  assume none: "D q = None"
  show "is_prime q"
  proof (rule ccontr)
    assume np: "\<not> is_prime q"
    have q1: "1 < q" using sieve_invD(2)[OF inv] by simp
    obtain p where p: "is_prime p" "p dvd q" "p * p \<le> q"
      using prime_factor[OF q1] np by blast
    have p1: "1 < p" using p(1) by (rule is_prime_gt1)
    have podd: "odd p"
    proof
      assume "even p"
      then have "even q" using p(2) by (rule dvd_trans)
      then show False using sieve_invD(3)[OF inv] by simp
    qed
    have "p * 1 < p * p" using p1 by (intro mult_strict_left_mono) simp_all
    then have pq: "p < q" using p(3) by simp
    obtain c where c: "D c = Some p"
      using sieve_invD(5)[OF inv p(1) podd pq] by blast
    have ok: "entry_ok D q c p" using sieve_invD(4)[OF inv c] .
    have "c \<noteq> q" using c none by auto
    then have "q < c" using ok by (simp add: entry_ok_def)
    then have "q \<in> dom D"
      using ok p(2,3) sieve_invD(3)[OF inv] unfolding entry_ok_def by blast
    then show False using none by auto
  qed
next
  assume pr: "is_prime q"
  show "D q = None"
  proof (rule ccontr)
    assume "D q \<noteq> None"
    then obtain p where "D q = Some p" by auto
    then have ok: "entry_ok D q q p" using sieve_invD(4)[OF inv] by blast
    then have "1 < p" "p < q" "p dvd q"
      by (simp_all add: entry_ok_def is_prime_gt1)
    then show False using pr is_prime_no_divisor by blast
  qed
qed

lemma prime_dvd_square:
  assumes p: "is_prime p" and q: "is_prime q" and d: "p dvd q * q"
  shows "p = q"
proof -
  have p1: "1 < p" and q1: "1 < q" using p q by (simp_all add: is_prime_gt1)
  have pq: "p dvd q"
  proof (rule ccontr)
    assume nd: "\<not> p dvd q"
    define g where "g = gcd p q"
    have g: "g dvd p" "g dvd q" "0 < g"
      using p1 by (simp_all add: g_def gcd_pos_int)
    have "g \<le> p" using g(1) p1 by (intro zdvd_imp_le) simp_all
    have "g = 1"
    proof (rule ccontr)
      assume "g \<noteq> 1"
      then have g1: "1 < g" using g(3) by simp
      have "g \<noteq> p" using g(2) nd by auto
      then have "g < p" using \<open>g \<le> p\<close> by simp
      then show False using is_prime_no_divisor[OF p g1] g(1) by blast
    qed
    then have "coprime p q" by (simp add: g_def coprime_iff_gcd_eq_1)
    then have "p dvd q" using d by (simp add: coprime_dvd_mult_right_iff)
    then show False using nd by simp
  qed
  have "p \<le> q" using pq q1 by (intro zdvd_imp_le) simp_all
  show ?thesis
  proof (rule ccontr)
    assume "p \<noteq> q"
    then have "p < q" using \<open>p \<le> q\<close> by simp
    then show False using is_prime_no_divisor[OF q p1] pq by blast
  qed
qed

lemma entry_ok_advance:
  assumes ok: "entry_ok D q c p" and ne: "c \<noteq> q" and oq: "odd q"
    and sub: "\<And>m. m \<in> dom D \<Longrightarrow> m \<noteq> q \<Longrightarrow> m \<in> dom D'"
  shows "entry_ok D' (q + 2) c p"
proof -
  have "q < c" using ok ne by (simp add: entry_ok_def)
  moreover have "odd c" using ok by (simp add: entry_ok_def)
  ultimately have c: "q + 2 \<le> c" using oq by (intro odd_gap)
  have "m \<in> dom D'" if m: "odd m \<and> p dvd m \<and> p * p \<le> m \<and> q + 2 \<le> m \<and> m < c" for m
  proof -
    have "odd m \<and> p dvd m \<and> p * p \<le> m \<and> q \<le> m \<and> m < c" using m by simp
    then have "m \<in> dom D" using ok unfolding entry_ok_def by blast
    moreover have "m \<noteq> q" using m by simp
    ultimately show ?thesis by (rule sub)
  qed
  then show ?thesis using ok c unfolding entry_ok_def by auto
qed

lemma sieve_inv_prime_branch:
  assumes inv: "sieve_inv D q" and none: "D q = None"
  shows "sieve_inv (D(q * q \<mapsto> q)) (q + 2)"
proof -
  let ?D = "D(q * q \<mapsto> q)"
  note fin = sieve_invD(1)[OF inv] and q3 = sieve_invD(2)[OF inv] and oq = sieve_invD(3)[OF inv]
  have pq: "is_prime q" using tracked_iff_composite[OF inv] none by simp
  have less: "p < q" if "D c = Some p" for c p
    using sieve_invD(4)[OF inv that] by (simp add: entry_ok_def)
  have fresh: "D (q * q) = None"
  proof (rule ccontr)
    assume "D (q * q) \<noteq> None"
    then obtain p where p: "D (q * q) = Some p" by auto
    then have "entry_ok D q (q * q) p" by (rule sieve_invD(4)[OF inv])
    then have "is_prime p" "p dvd q * q" by (simp_all add: entry_ok_def)
    then have "p = q" using pq by (intro prime_dvd_square)
    then show False using less[OF p] by simp
  qed
  have sq: "q + 2 \<le> q * q"
  proof -
    have "3 * q \<le> q * q" using q3 by (intro mult_right_mono) simp_all
    then show ?thesis using q3 by linarith
  qed
  have e: "entry_ok ?D (q + 2) c p" if cp: "?D c = Some p" for c p
  proof (cases "c = q * q")
    case True
    then have "p = q" using cp by simp
    then show ?thesis using True pq oq sq by (simp add: entry_ok_def)
  next
    case False
    then have old: "D c = Some p" using cp by simp
    have "c \<noteq> q" using old none by auto
    then show ?thesis
      using sieve_invD(4)[OF inv old] oq by (intro entry_ok_advance[of D q]) auto
  qed
  have f: "\<exists>c. ?D c = Some p" if p: "is_prime p" "odd p" "p < q + 2" for p
  proof (cases "p = q")
    case True
    then show ?thesis by (intro exI[of _ "q * q"]) simp
  next
    case False
    have "p \<noteq> q + 1" using p(2) oq by auto
    then have "p < q" using False p(3) by simp
    then obtain c where c: "D c = Some p"
      using sieve_invD(5)[OF inv p(1,2)] by blast
    then have "c \<noteq> q * q" using fresh by auto
    then show ?thesis using c by (intro exI[of _ c]) simp
  qed
  have u: "c = c'" if "?D c = Some p \<and> ?D c' = Some p" for c c' p
  proof (cases "p = q")
    case True
    have "c = q * q"
    proof (rule ccontr)
      assume "c \<noteq> q * q"
      then have "D c = Some q" using that True by simp
      then show False using less by blast
    qed
    moreover have "c' = q * q"
    proof (rule ccontr)
      assume "c' \<noteq> q * q"
      then have "D c' = Some q" using that True by simp
      then show False using less by blast
    qed
    ultimately show ?thesis by simp
  next
    case False
    then have "c \<noteq> q * q" "c' \<noteq> q * q" using that by auto
    then have "D c = Some p" "D c' = Some p" using that by simp_all
    then show ?thesis by (rule sieve_invD(6)[OF inv])
  qed
  have "finite (dom ?D)" using fin by simp
  moreover have "3 \<le> q + 2" "odd (q + 2)" using q3 oq by simp_all
  ultimately show ?thesis
    unfolding sieve_inv_def using e f u by blast
qed

lemma sieve_inv_composite_branch:
  assumes inv: "sieve_inv D q" and some: "D q = Some p"
  shows "\<exists>x. next_multiple (D(q := None)) p (p + q) = Some x
             \<and> sieve_inv ((D(q := None))(x \<mapsto> p)) (q + 2)
             \<and> p dvd x \<and> odd x \<and> q < x \<and> x \<notin> dom (D(q := None))
             \<and> (\<forall>m. odd m \<and> p dvd m \<and> q < m \<and> m < x \<longrightarrow> m \<in> dom (D(q := None)))"
proof -
  let ?D1 = "D(q := None)"
  note fin = sieve_invD(1)[OF inv] and q3 = sieve_invD(2)[OF inv] and oq = sieve_invD(3)[OF inv]
  have okq: "entry_ok D q q p" using some by (rule sieve_invD(4)[OF inv])
  then have p: "is_prime p" "odd p" "p < q" "p dvd q" "p * p \<le> q"
    by (simp_all add: entry_ok_def)
  have p1: "1 < p" using p(1) by (rule is_prime_gt1)
  have nq: "\<not> is_prime q" using tracked_iff_composite[OF inv] some by simp
  have "finite (dom ?D1)" using fin by simp
  then obtain x where x: "next_multiple ?D1 p (p + q) = Some x" "p + q \<le> x"
      "p dvd (x - (p + q))" "x \<notin> dom ?D1" "odd x"
      "\<forall>m. p + q \<le> m \<and> m < x \<and> p dvd (m - (p + q)) \<longrightarrow> m \<in> dom ?D1 \<or> even m"
    using next_multiple_returns[of ?D1 p "p + q"] p(2) p1 by auto
  let ?D = "?D1(x \<mapsto> p)"
  have dx: "p dvd x"
  proof -
    have "p dvd (x - (p + q)) + (p + q)" using x(3) p(4) by (intro dvd_add) simp_all
    then show ?thesis by simp
  qed
  have xq: "q + 2 \<le> x" using x(2) p1 by simp
  have between: "m \<in> dom ?D1" if m: "odd m \<and> p dvd m \<and> q < m \<and> m < x" for m
  proof -
    have "p dvd m - q" using m p(4) by (intro dvd_diff) simp_all
    moreover have "0 < m - q" using m by simp
    ultimately have "p \<le> m - q" by (intro zdvd_imp_le)
    moreover have "p dvd (m - (p + q))"
    proof -
      have "p dvd (m - q) - p" by (rule dvd_diff[OF \<open>p dvd m - q\<close> dvd_refl])
      then show ?thesis by (simp add: algebra_simps)
    qed
    ultimately have "p + q \<le> m \<and> m < x \<and> p dvd (m - (p + q))" using m by simp
    then have "m \<in> dom ?D1 \<or> even m" using x(6) by blast
    then show ?thesis using m by blast
  qed
  have only: "c = q" if "D c = Some p" for c
    using that some by (rule sieve_invD(6)[OF inv])
  have e: "entry_ok ?D (q + 2) c p'" if cp: "?D c = Some p'" for c p'
  proof (cases "c = x")
    case True
    then have pp: "p' = p" using cp by simp
    have "m \<in> dom ?D" if m: "odd m \<and> p dvd m \<and> p * p \<le> m \<and> q + 2 \<le> m \<and> m < x" for m
    proof -
      have "odd m \<and> p dvd m \<and> q < m \<and> m < x" using m by simp
      then have "m \<in> dom ?D1" by (rule between)
      then show ?thesis by auto
    qed
    moreover have "p * p \<le> x" using p(5) xq by simp
    ultimately show ?thesis
      using True pp p(1,2,3) dx x(5) xq unfolding entry_ok_def by simp
  next
    case False
    then have "?D1 c = Some p'" using cp by simp
    then have ne: "c \<noteq> q" and old: "D c = Some p'" by (auto split: if_splits)
    show ?thesis
      using sieve_invD(4)[OF inv old] ne oq by (intro entry_ok_advance[of D q]) auto
  qed
  have f: "\<exists>c. ?D c = Some p'" if pr: "is_prime p'" "odd p'" "p' < q + 2" for p'
  proof (cases "p' = p")
    case True
    then show ?thesis by (intro exI[of _ x]) simp
  next
    case False
    have "p' \<noteq> q" using pr(1) nq by auto
    moreover have "p' \<noteq> q + 1" using pr(2) oq by auto
    ultimately have "p' < q" using pr(3) by simp
    then obtain c where c: "D c = Some p'"
      using sieve_invD(5)[OF inv pr(1,2)] by blast
    have "c \<noteq> q" using c some False by auto
    then have c1: "?D1 c = Some p'" using c by simp
    have "c \<in> dom ?D1" using c1 by (rule domI)
    then have "c \<noteq> x" using x(4) by blast
    then show ?thesis using c1 by (intro exI[of _ c]) simp
  qed
  have u: "c = c'" if "?D c = Some p' \<and> ?D c' = Some p'" for c c' p'
  proof (cases "p' = p")
    case True
    have "k = x" if k: "?D k = Some p" for k
    proof (rule ccontr)
      assume "k \<noteq> x"
      then have "?D1 k = Some p" using k by simp
      then have "k \<noteq> q" "D k = Some p" by (auto split: if_splits)
      then show False using only by blast
    qed
    then show ?thesis using that True by blast
  next
    case False
    then have "c \<noteq> x" "c' \<noteq> x" using that by auto
    then have "?D1 c = Some p'" "?D1 c' = Some p'" using that by simp_all
    then have "D c = Some p'" "D c' = Some p'" by (auto split: if_splits)
    then show ?thesis by (rule sieve_invD(6)[OF inv])
  qed
  have "finite (dom ?D)" using fin by simp
  moreover have "3 \<le> q + 2" "odd (q + 2)" using q3 oq by simp_all
  ultimately have "sieve_inv ?D (q + 2)"
    unfolding sieve_inv_def using e f u by blast
  moreover have "q < x" using xq by simp
  ultimately show ?thesis using x(1,4,5) dx between by blast
qed

subsection \<open>One step of the generator\<close>

lemma sieve_step_inv:
  assumes inv: "sieve_inv D q"
  shows "\<exists>D'. sieve_step (Scan D q) = Some (Scan D' (q + 2), if is_prime q then Some q else None)
              \<and> sieve_inv D' (q + 2)"
proof (cases "D q")
  case None
  then have "is_prime q" using tracked_iff_composite[OF inv] by simp
  moreover have "sieve_step (Scan D q) = Some (Scan (D(q * q \<mapsto> q)) (q + 2), Some q)"
    using None by simp
  ultimately show ?thesis using sieve_inv_prime_branch[OF inv None] by simp
next
  case (Some p)
  then have "\<not> is_prime q" using tracked_iff_composite[OF inv] by simp
  moreover obtain x where x: "next_multiple (D(q := None)) p (p + q) = Some x"
      "sieve_inv ((D(q := None))(x \<mapsto> p)) (q + 2)"
    using sieve_inv_composite_branch[OF inv Some] by blast
  moreover have "sieve_step (Scan D q) = Some (Scan ((D(q := None))(x \<mapsto> p)) (q + 2), None)"
    using Some x(1) by simp
  ultimately show ?thesis by simp
qed

lemma sieve_inv_init: "sieve_inv Map.empty 3"
proof -
  have "\<not> (is_prime p \<and> odd p \<and> p < 3)" for p
  proof
    assume h: "is_prime p \<and> odd p \<and> p < 3"
    then have "1 < p" by (simp add: is_prime_gt1)
    then have "p = 2" using h by simp
    then show False using h by simp
  qed
  then show ?thesis by (simp add: sieve_inv_def)
qed

subsection \<open>The primes below a bound\<close>

lemma primes_below_set: "set (primes_below n) = {p. is_prime p \<and> p < n}"
  by (auto simp: primes_below_def is_prime_gt1 dest: is_prime_gt1)

lemma primes_below_sorted: "sorted_wrt (<) (primes_below n)"
  unfolding primes_below_def by (intro sorted_wrt_filter) (simp add: sorted_wrt_upto)

lemma primes_below_3: "primes_below 3 = [2]"
  by (simp add: primes_below_def is_prime_def)

lemma primes_below_step:
  assumes "3 \<le> q" "odd q"
  shows "primes_below (q + 2) = primes_below q @ (if is_prime q then [q] else [])"
proof -
  have a: "[2..q + 1] = [2..q] @ [q + 1]"
    using assms(1) upto_rec2[of 2 "q + 1"] by simp
  have b: "[2..q] = [2..q - 1] @ [q]"
    using assms(1) upto_rec2[of 2 q] by simp
  have e: "q + 2 - 1 = q + 1" by simp
  have s: "[2..q + 2 - 1] = [2..q - 1] @ [q, q + 1]"
    unfolding e a b by simp
  have np: "\<not> is_prime (q + 1)"
    using assms by (intro even_not_prime) simp_all
  have "primes_below (q + 2) = filter is_prime ([2..q - 1] @ [q, q + 1])"
    unfolding primes_below_def s ..
  also have "\<dots> = primes_below q @ filter is_prime [q, q + 1]"
    by (simp only: filter_append primes_below_def)
  also have "filter is_prime [q, q + 1] = (if is_prime q then [q] else [])"
    using np by simp
  finally show ?thesis .
qed

lemma primes_below_cut:
  assumes "2 < n" "n \<le> q" and gap: "\<forall>p. is_prime p \<and> p < q \<longrightarrow> p < n"
  shows "primes_below q = primes_below n"
proof -
  have "[2..q - 1] = [2..n - 1] @ [n..q - 1]"
    using assms(1,2) upto_split1[of 2 n "q - 1"]
    by (cases "n = q") simp_all
  moreover have "filter is_prime [n..q - 1] = []"
    using gap by (auto simp: filter_empty_conv)
  ultimately show ?thesis by (simp add: primes_below_def)
qed

subsection \<open>The bounded prime list\<close>

lemma takewhile_sieve_step:
  assumes "sieve_step s = Some (s', y)"
  shows "takewhile_sieve n s L =
           (case y of None \<Rightarrow> takewhile_sieve n s' L
            | Some p \<Rightarrow> if p < n then takewhile_sieve n s' (L @ [p]) else Some L)"
  by (subst takewhile_sieve.simps) (simp add: assms)

lemma takewhile_sieve_start:
  "takewhile_sieve n Start L =
     (if 2 < n then takewhile_sieve n (Scan Map.empty 3) (L @ [2]) else Some L)"
  by (simp add: takewhile_sieve_step[of Start "Scan Map.empty 3" "Some 2"])

lemma takewhile_sieve_scan:
  "takewhile_sieve n (Scan D q) L =
     (case D q of
        None \<Rightarrow> if q < n then takewhile_sieve n (Scan (D(q * q \<mapsto> q)) (q + 2)) (L @ [q]) else Some L
      | Some p \<Rightarrow>
          (case next_multiple (D(q := None)) p (p + q) of
             None \<Rightarrow> None
           | Some x \<Rightarrow> takewhile_sieve n (Scan ((D(q := None))(x \<mapsto> p)) (q + 2)) L))"
  by (subst takewhile_sieve.simps) (simp split: option.splits)

lemma takewhile_sieve_correct:
  assumes "sieve_inv D q" "is_prime P" "n \<le> P" "q \<le> P" "2 < n"
    and "L = primes_below q" "\<forall>p. is_prime p \<and> p < q \<longrightarrow> p < n"
  shows "takewhile_sieve n (Scan D q) L = Some (primes_below n)"
  using assms
proof (induction "nat (P - q)" arbitrary: D q L rule: less_induct)
  case less
  note inv = \<open>sieve_inv D q\<close>
  have q3: "3 \<le> q" and oq: "odd q" using sieve_invD(2,3)[OF inv] .
  have oP: "odd P" using less.prems(2,4) q3 by (intro is_prime_odd) simp_all
  obtain D' where D': "sieve_step (Scan D q) = Some (Scan D' (q + 2), if is_prime q then Some q else None)"
      "sieve_inv D' (q + 2)"
    using sieve_step_inv[OF inv] by blast
  note unfold = takewhile_sieve_step[OF D'(1), of n L]
  have stop: ?case if "is_prime q" "n \<le> q"
  proof -
    have "takewhile_sieve n (Scan D q) L = Some L" using unfold that by simp
    moreover have "primes_below q = primes_below n"
      using less.prems(5) that(2) less.prems(7) by (rule primes_below_cut)
    ultimately show ?thesis using less.prems(6) by simp
  qed
  have go: ?case if cont: "\<not> (is_prime q \<and> n \<le> q)"
  proof -
    have "q \<noteq> P" using cont less.prems(2,3) by auto
    then have "q < P" using less.prems(4) by simp
    then have le: "q + 2 \<le> P" using oq oP by (intro odd_gap)
    let ?L = "L @ (if is_prime q then [q] else [])"
    have "takewhile_sieve n (Scan D' (q + 2)) ?L = Some (primes_below n)"
    proof (rule less.hyps)
      show "nat (P - (q + 2)) < nat (P - q)" using le by simp
      show "sieve_inv D' (q + 2)" by fact
      show "is_prime P" "n \<le> P" "2 < n" by fact+
      show "q + 2 \<le> P" by fact
      show "?L = primes_below (q + 2)"
        using less.prems(6) primes_below_step[OF q3 oq] by simp
      show "\<forall>p. is_prime p \<and> p < q + 2 \<longrightarrow> p < n"
      proof (intro allI impI)
        fix p assume p: "is_prime p \<and> p < q + 2"
        show "p < n"
        proof (cases "p < q")
          case True
          then show ?thesis using p less.prems(7) by blast
        next
          case False
          have "\<not> is_prime (q + 1)" using q3 oq by (intro even_not_prime) simp_all
          then have "p \<noteq> q + 1" using p by auto
          then have "p = q" using False p by simp
          then show ?thesis using p cont by simp
        qed
      qed
    qed
    moreover have "takewhile_sieve n (Scan D q) L = takewhile_sieve n (Scan D' (q + 2)) ?L"
      using unfold cont by auto
    ultimately show ?thesis by simp
  qed
  show ?case using stop go by blast
qed

lemma get_primes_sieve_correct: "get_primes_sieve n = Some (primes_below n)"
proof (cases "2 < n")
  case False
  then have "[2..n - 1] = []" by simp
  then show ?thesis
    using False by (simp add: get_primes_sieve_def takewhile_sieve_start primes_below_def)
next
  case True
  obtain P where P: "is_prime P" "max n 3 < P" using prime_above by blast
  have "takewhile_sieve n (Scan Map.empty 3) [2] = Some (primes_below n)"
  proof (rule takewhile_sieve_correct)
    show "sieve_inv Map.empty 3" by (rule sieve_inv_init)
    show "is_prime P" by fact
    show "n \<le> P" "3 \<le> P" using P(2) by simp_all
    show "2 < n" by fact
    show "[2] = primes_below 3" using primes_below_3 by simp
    show "\<forall>p. is_prime p \<and> p < 3 \<longrightarrow> p < n" using True by auto
  qed
  then show ?thesis using True by (simp add: get_primes_sieve_def takewhile_sieve_start)
qed

lemma get_primes_sieve_10: "get_primes_sieve 10 = Some [2, 3, 5, 7]"
  by (simp add: get_primes_sieve_def takewhile_sieve_start takewhile_sieve_scan
      next_multiple.simps)

subsection \<open>The history of the generator\<close>

lemma sieve_inv_tracks:
  assumes inv: "sieve_inv D q"
  shows "table_tracks D q (primes_below q)"
proof -
  have a: "is_prime p \<and> odd p \<and> p \<in> set (primes_below q) \<and> odd c \<and> \<not> is_prime c
           \<and> p dvd c \<and> q \<le> c" if cp: "D c = Some p" for c p
  proof -
    have ok: "entry_ok D q c p" using cp by (rule sieve_invD(4)[OF inv])
    then have p: "is_prime p" "odd p" "p < q" "p dvd c" "odd c" "q \<le> c" "p * p \<le> c"
      by (simp_all add: entry_ok_def)
    have p1: "1 < p" using p(1) by (rule is_prime_gt1)
    have "p * 1 < p * p" using p1 by (intro mult_strict_left_mono) simp_all
    then have "p < c" using p(7) by simp
    then have "\<not> is_prime c" using p1 p(4) is_prime_no_divisor by blast
    moreover have "p \<in> set (primes_below q)" using p(1,3) by (simp add: primes_below_set)
    ultimately show ?thesis using p by simp
  qed
  have b: "is_prime p \<and> (\<exists>c. D c = Some p \<and> (\<forall>c'. D c' = Some p \<longrightarrow> c' = c))"
    if "p \<in> set (primes_below q) \<and> odd p" for p
  proof -
    have p: "is_prime p" "p < q" "odd p" using that by (simp_all add: primes_below_set)
    obtain c where c: "D c = Some p" using sieve_invD(5)[OF inv p(1,3,2)] by blast
    have "c' = c" if "D c' = Some p" for c'
      using that c by (rule sieve_invD(6)[OF inv])
    then show ?thesis using p(1) c by blast
  qed
  show ?thesis unfolding table_tracks_def using a b by blast
qed

lemma sieve_run_state:
  "\<exists>D. sieve_run (Suc k) = Some (Scan D (3 + 2 * int k), primes_below (3 + 2 * int k))
       \<and> sieve_inv D (3 + 2 * int k)"
proof (induction k)
  case 0
  then show ?case using sieve_inv_init primes_below_3 by simp
next
  case (Suc k)
  let ?q = "3 + 2 * int k"
  obtain D where D: "sieve_run (Suc k) = Some (Scan D ?q, primes_below ?q)" "sieve_inv D ?q"
    using Suc.IH by blast
  obtain D' where D': "sieve_step (Scan D ?q) = Some (Scan D' (?q + 2), if is_prime ?q then Some ?q else None)"
      "sieve_inv D' (?q + 2)"
    using sieve_step_inv[OF D(2)] by blast
  have q: "3 \<le> ?q" "odd ?q" by simp_all
  have e: "3 + 2 * int (Suc k) = ?q + 2" by simp
  have "sieve_run (Suc (Suc k))
        = Some (Scan D' (?q + 2), primes_below ?q @ (if is_prime ?q then [?q] else []))"
    using D(1) D'(1) by (simp del: sieve_step.simps)
  then have "sieve_run (Suc (Suc k)) = Some (Scan D' (?q + 2), primes_below (?q + 2))"
    using primes_below_step[OF q] by simp
  then show ?case using D'(2) unfolding e by blast
qed

lemma sieve_run_4:
  "sieve_run 4 = Some (Scan (Map.empty(9 \<mapsto> 3, 25 \<mapsto> 5, 49 \<mapsto> 7)) 9, [2, 3, 5, 7])"
  by (simp add: eval_nat_numeral)

lemma sieve_run_5:
  "sieve_run 5 = Some (Scan (Map.empty(25 \<mapsto> 5, 49 \<mapsto> 7, 15 \<mapsto> 3)) 11, [2, 3, 5, 7])"
proof -
  have "sieve_run 5 = sieve_run (Suc 4)" by (simp add: eval_nat_numeral)
  also have "\<dots> = Some (Scan ((Map.empty(9 \<mapsto> 3, 25 \<mapsto> 5, 49 \<mapsto> 7))(9 := None, 15 \<mapsto> 3)) 11,
                        [2, 3, 5, 7])"
    unfolding sieve_run.simps sieve_run_4 by (simp add: next_multiple.simps)
  also have "(Map.empty(9 \<mapsto> 3, 25 \<mapsto> 5, 49 \<mapsto> 7))(9 := None, 15 \<mapsto> 3)
             = (Map.empty(25 \<mapsto> 5, 49 \<mapsto> 7, 15 \<mapsto> (3::int)) :: int \<rightharpoonup> int)"
    by (auto simp: fun_eq_iff)
  finally show ?thesis .
qed

text \<open>
  Claim C2.  For every integer \<open>n\<close> the function returns, and its result is the strictly
  increasing list of exactly the primes below \<open>n\<close>: every element is prime and below \<open>n\<close>,
  the list is strictly increasing, no prime below \<open>n\<close> is missing, and for \<open>n \<le> 2\<close> the
  list is empty.
\<close>

theorem get_primes_sieve_primes_below:
  "\<exists>L. get_primes_sieve n = Some L
       \<and> (\<forall>p\<in>set L. is_prime p) \<and> sorted_wrt (<) L \<and> (\<forall>p\<in>set L. p < n)
       \<and> (\<forall>p. is_prime p \<and> p < n \<longrightarrow> p \<in> set L)
       \<and> (n \<le> 2 \<longrightarrow> L = [])"
proof -
  have "n \<le> 2 \<longrightarrow> primes_below n = []" by (simp add: primes_below_def)
  then show ?thesis
    using get_primes_sieve_correct[of n] primes_below_sorted[of n]
    by (simp add: primes_below_set)
qed

theorem get_primes_sieve_primes_below_witness:
  "get_primes_sieve 10 = Some [2, 3, 5, 7]
   \<and> is_prime 2 \<and> is_prime 3 \<and> \<not> is_prime 4 \<and> is_prime 5 \<and> \<not> is_prime 6 \<and> is_prime 7
   \<and> \<not> is_prime 8 \<and> \<not> is_prime 9
   \<and> get_primes_sieve 2 = Some [] \<and> get_primes_sieve (- 3) = Some []"
proof -
  obtain L where L: "get_primes_sieve 10 = Some L" "\<forall>p\<in>set L. is_prime p"
      "\<forall>p. is_prime p \<and> p < 10 \<longrightarrow> p \<in> set L"
    using get_primes_sieve_primes_below[of 10] by blast
  have e: "L = [2, 3, 5, 7]" using L(1) get_primes_sieve_10 by simp
  have yes: "is_prime 2" "is_prime 3" "is_prime 5" "is_prime 7"
    using L(2) unfolding e by simp_all
  have no: "\<not> is_prime 4" "\<not> is_prime 6" "\<not> is_prime 8" "\<not> is_prime 9"
    using L(3) unfolding e by auto
  have "get_primes_sieve 2 = Some []"
    using get_primes_sieve_primes_below[of 2] by auto
  moreover have "get_primes_sieve (- 3) = Some []"
    using get_primes_sieve_primes_below[of "- 3"] by auto
  ultimately show ?thesis using get_primes_sieve_10 yes no by simp
qed

text \<open>
  Claim C10.  After \<open>k + 1\<close> steps the generator is about to test the odd candidate
  \<open>q = 3 + 2k\<close>, with dictionary \<open>D\<close> and yielded values \<open>ys\<close>.  There every entry \<open>c \<mapsto> p\<close>
  of \<open>D\<close> has an odd prime \<open>p\<close> already yielded and an odd composite multiple \<open>c \<ge> q\<close> of
  \<open>p\<close>, and every odd prime yielded is the value of exactly one entry.  The next step keeps
  this: in the prime branch (\<open>q\<close> is no key) it inserts \<open>q\<^sup>2 \<mapsto> q\<close> and yields \<open>q\<close>; in the
  composite branch (\<open>q \<mapsto> p\<close>) it pops \<open>q\<close> and inserts \<open>x \<mapsto> p\<close> for the next odd multiple
  \<open>x\<close> of \<open>p\<close> after \<open>q\<close> that is not a key, yielding nothing.
\<close>

theorem sieve_table_invariant:
  "\<exists>D q ys. sieve_run (Suc k) = Some (Scan D q, ys) \<and> q = 3 + 2 * int k \<and> table_tracks D q ys
     \<and> (case D q of
          None \<Rightarrow>
            sieve_run (Suc (Suc k)) = Some (Scan (D(q * q \<mapsto> q)) (q + 2), ys @ [q])
            \<and> table_tracks (D(q * q \<mapsto> q)) (q + 2) (ys @ [q])
        | Some p \<Rightarrow>
            (\<exists>x. sieve_run (Suc (Suc k)) = Some (Scan ((D(q := None))(x \<mapsto> p)) (q + 2), ys)
               \<and> p dvd x \<and> odd x \<and> q < x \<and> x \<notin> dom (D(q := None))
               \<and> (\<forall>m. odd m \<and> p dvd m \<and> q < m \<and> m < x \<longrightarrow> m \<in> dom (D(q := None)))
               \<and> table_tracks ((D(q := None))(x \<mapsto> p)) (q + 2) ys))"
proof -
  let ?q = "3 + 2 * int k"
  obtain D where D: "sieve_run (Suc k) = Some (Scan D ?q, primes_below ?q)" "sieve_inv D ?q"
    using sieve_run_state by blast
  have q: "3 \<le> ?q" "odd ?q" by simp_all
  note step = primes_below_step[OF q]
  have run: "sieve_run (Suc (Suc k)) = Some (s', primes_below ?q @ zs)"
    if "sieve_step (Scan D ?q) = Some (s', y)" "zs = (case y of None \<Rightarrow> [] | Some p \<Rightarrow> [p])"
    for s' y zs
    using D(1) that by (simp del: sieve_step.simps)
  have t: "table_tracks D ?q (primes_below ?q)" using D(2) by (rule sieve_inv_tracks)
  have branch: "case D ?q of
          None \<Rightarrow>
            sieve_run (Suc (Suc k)) = Some (Scan (D(?q * ?q \<mapsto> ?q)) (?q + 2), primes_below ?q @ [?q])
            \<and> table_tracks (D(?q * ?q \<mapsto> ?q)) (?q + 2) (primes_below ?q @ [?q])
        | Some p \<Rightarrow>
            (\<exists>x. sieve_run (Suc (Suc k)) = Some (Scan ((D(?q := None))(x \<mapsto> p)) (?q + 2), primes_below ?q)
               \<and> p dvd x \<and> odd x \<and> ?q < x \<and> x \<notin> dom (D(?q := None))
               \<and> (\<forall>m. odd m \<and> p dvd m \<and> ?q < m \<and> m < x \<longrightarrow> m \<in> dom (D(?q := None)))
               \<and> table_tracks ((D(?q := None))(x \<mapsto> p)) (?q + 2) (primes_below ?q))"
  proof (cases "D ?q")
    case None
    have pr: "is_prime ?q" using tracked_iff_composite[OF D(2)] None by simp
    have "sieve_step (Scan D ?q) = Some (Scan (D(?q * ?q \<mapsto> ?q)) (?q + 2), Some ?q)"
      using None by simp
    then have r: "sieve_run (Suc (Suc k))
                  = Some (Scan (D(?q * ?q \<mapsto> ?q)) (?q + 2), primes_below ?q @ [?q])"
      by (rule run) simp
    have "table_tracks (D(?q * ?q \<mapsto> ?q)) (?q + 2) (primes_below (?q + 2))"
      using sieve_inv_prime_branch[OF D(2) None] by (rule sieve_inv_tracks)
    then have "table_tracks (D(?q * ?q \<mapsto> ?q)) (?q + 2) (primes_below ?q @ [?q])"
      using step pr by simp
    then show ?thesis using None r by simp
  next
    case (Some p)
    have npr: "\<not> is_prime ?q" using tracked_iff_composite[OF D(2)] Some by simp
    obtain x where x: "next_multiple (D(?q := None)) p (p + ?q) = Some x"
        "sieve_inv ((D(?q := None))(x \<mapsto> p)) (?q + 2)"
        "p dvd x" "odd x" "?q < x" "x \<notin> dom (D(?q := None))"
        "\<forall>m. odd m \<and> p dvd m \<and> ?q < m \<and> m < x \<longrightarrow> m \<in> dom (D(?q := None))"
      using sieve_inv_composite_branch[OF D(2) Some] by blast
    have "sieve_step (Scan D ?q) = Some (Scan ((D(?q := None))(x \<mapsto> p)) (?q + 2), None)"
      using Some x(1) by simp
    then have "sieve_run (Suc (Suc k))
               = Some (Scan ((D(?q := None))(x \<mapsto> p)) (?q + 2), primes_below ?q @ [])"
      by (rule run) simp
    then have r: "sieve_run (Suc (Suc k))
                  = Some (Scan ((D(?q := None))(x \<mapsto> p)) (?q + 2), primes_below ?q)"
      by simp
    have "table_tracks ((D(?q := None))(x \<mapsto> p)) (?q + 2) (primes_below (?q + 2))"
      using x(2) by (rule sieve_inv_tracks)
    then have tt: "table_tracks ((D(?q := None))(x \<mapsto> p)) (?q + 2) (primes_below ?q)"
      using step npr by simp
    have "\<exists>x. sieve_run (Suc (Suc k)) = Some (Scan ((D(?q := None))(x \<mapsto> p)) (?q + 2), primes_below ?q)
               \<and> p dvd x \<and> odd x \<and> ?q < x \<and> x \<notin> dom (D(?q := None))
               \<and> (\<forall>m. odd m \<and> p dvd m \<and> ?q < m \<and> m < x \<longrightarrow> m \<in> dom (D(?q := None)))
               \<and> table_tracks ((D(?q := None))(x \<mapsto> p)) (?q + 2) (primes_below ?q)"
      using r x(3-7) tt by blast
    then show ?thesis using Some by simp
  qed
  show ?thesis
    using D(1) t branch by blast
qed

theorem sieve_table_invariant_witness:
  "sieve_run 4 = Some (Scan (Map.empty(9 \<mapsto> 3, 25 \<mapsto> 5, 49 \<mapsto> 7)) 9, [2, 3, 5, 7])
   \<and> table_tracks (Map.empty(9 \<mapsto> 3, 25 \<mapsto> 5, 49 \<mapsto> 7)) 9 [2, 3, 5, 7]
   \<and> sieve_run 5 = Some (Scan (Map.empty(25 \<mapsto> 5, 49 \<mapsto> 7, 15 \<mapsto> 3)) 11, [2, 3, 5, 7])
   \<and> table_tracks (Map.empty(25 \<mapsto> 5, 49 \<mapsto> 7, 15 \<mapsto> 3)) 11 [2, 3, 5, 7]"
proof -
  let ?D4 = "Map.empty(9 \<mapsto> 3, 25 \<mapsto> 5, 49 \<mapsto> (7::int)) :: int \<rightharpoonup> int"
  let ?D5 = "Map.empty(25 \<mapsto> 5, 49 \<mapsto> 7, 15 \<mapsto> (3::int)) :: int \<rightharpoonup> int"
  have s: "Suc 3 = 4" "Suc 4 = 5" by simp_all
  obtain D q ys where a: "sieve_run 4 = Some (Scan D q, ys)" "table_tracks D q ys"
    using sieve_table_invariant[of 3] unfolding s by blast
  have "table_tracks ?D4 9 [2, 3, 5, 7]" using a sieve_run_4 by simp
  moreover
  obtain D' q' ys' where b: "sieve_run 5 = Some (Scan D' q', ys')" "table_tracks D' q' ys'"
    using sieve_table_invariant[of 4] unfolding s by blast
  have "table_tracks ?D5 11 [2, 3, 5, 7]" using b sieve_run_5 by simp
  ultimately show ?thesis using sieve_run_4 sieve_run_5 by simp
qed

section \<open>Properties of the semiprime generator\<close>

lemma list_index_in_range:
  "0 \<le> i \<Longrightarrow> i < int (length xs) \<Longrightarrow> list_index xs i = Inr (xs ! nat i)"
  by (simp add: list_index_def Let_def)

text \<open>
  Claim C6.  For every bound \<open>n > 2\<close> and every outcome of the two draws (each an index
  into the prime list the function has computed) the function returns \<open>p \<cdot> q\<close> for the
  two listed primes \<open>p\<close> and \<open>q\<close> at these indices, both below \<open>n\<close>; the product is at least
  4 and is not prime.
\<close>

theorem get_semiprime_product:
  assumes "2 < n" "get_primes_sieve n = Some primes"
    and "0 \<le> drawn1" "drawn1 < int (length primes)"
    and "0 \<le> drawn2" "drawn2 < int (length primes)"
  shows "\<exists>p q. get_semiprime n drawn1 drawn2 = Some (Inr (p * q))
           \<and> p = primes ! nat drawn1 \<and> q = primes ! nat drawn2
           \<and> is_prime p \<and> p < n \<and> is_prime q \<and> q < n
           \<and> 4 \<le> p * q \<and> \<not> is_prime (p * q)"
proof -
  define p where "p = primes ! nat drawn1"
  define q where "q = primes ! nat drawn2"
  have pb: "primes = primes_below n" using assms(2) get_primes_sieve_correct[of n] by simp
  have "p \<in> set primes" unfolding p_def using assms(3,4) by (intro nth_mem) simp
  then have p: "is_prime p" "p < n" by (simp_all add: pb primes_below_set)
  have "q \<in> set primes" unfolding q_def using assms(5,6) by (intro nth_mem) simp
  then have q: "is_prime q" "q < n" by (simp_all add: pb primes_below_set)
  have p2: "2 \<le> p" and q2: "2 \<le> q" using p(1) q(1) is_prime_gt1 by fastforce+
  have "2 * 2 \<le> p * q" using p2 q2 by (intro mult_mono) simp_all
  then have four: "4 \<le> p * q" by simp
  have "p * 1 < p * q" using p2 q2 by (intro mult_strict_left_mono) simp_all
  then have "1 < p \<and> p < p * q \<and> p dvd p * q" using p2 by simp
  then have comp: "\<not> is_prime (p * q)" using is_prime_no_divisor by blast
  have l: "\<not> int (length primes) \<le> 0" using assms(3,4) by linarith
  have "get_semiprime n drawn1 drawn2 = Some (Inr (p * q))"
    unfolding get_semiprime_def p_def q_def
    using assms(2) l list_index_in_range[OF assms(3,4)] list_index_in_range[OF assms(5,6)]
    by (simp add: randrange_def Let_def)
  then show ?thesis using p q four comp p_def q_def by blast
qed

theorem get_semiprime_product_witness:
  "(2::int) < 10 \<and> get_primes_sieve 10 = Some [2, 3, 5, 7]
   \<and> get_semiprime 10 1 3 = Some (Inr 21) \<and> (21::int) = 3 * 7
   \<and> is_prime 3 \<and> is_prime 7 \<and> \<not> is_prime 21"
proof -
  have h: "(2::int) < 10" "(0::int) \<le> 1" "(1::int) < int (length [2, 3, 5, 7::int])"
    "(0::int) \<le> 3" "(3::int) < int (length [2, 3, 5, 7::int])"
    by simp_all
  obtain p q where pq: "get_semiprime 10 1 3 = Some (Inr (p * q))"
      "p = [2, 3, 5, 7] ! nat 1" "q = [2, 3, 5, 7] ! nat 3"
      "is_prime p" "is_prime q" "\<not> is_prime (p * q)"
    using get_semiprime_product[OF h(1) get_primes_sieve_10 h(2-5)] by blast
  have "p = 3" "q = 7" using pq(2,3) by (simp_all add: eval_nat_numeral)
  then show ?thesis using pq get_primes_sieve_10 by simp
qed

text \<open>
  Claim C7.  For \<open>n \<le> 2\<close> the prime list is empty and the function signals an error
  instead of subscripting the empty list: \<^verbatim>\<open>random.randrange(0)\<close> raises before any
  subscription takes place.  The exception is Python's \<open>ValueError\<close>, which is how the
  notebook realises the specification's InvalidBound; it is not the \<open>IndexError\<close> of a
  subscription.
\<close>

theorem get_semiprime_empty_range:
  assumes "n \<le> 2"
  shows "get_primes_sieve n = Some []
         \<and> get_semiprime n drawn1 drawn2 = Some (Inl ValueError)
         \<and> get_semiprime n drawn1 drawn2 \<noteq> Some (Inl IndexError)"
proof -
  have "get_primes_sieve n = Some []"
    using assms by (simp add: get_primes_sieve_def takewhile_sieve_start)
  then show ?thesis by (simp add: get_semiprime_def randrange_def)
qed

theorem get_semiprime_empty_range_witness:
  "get_semiprime 2 0 0 = Some (Inl ValueError) \<and> get_semiprime (- 7) 3 1 = Some (Inl ValueError)
   \<and> get_primes_sieve 2 = Some []"
proof -
  have "(2::int) \<le> 2" "(- 7::int) \<le> 2" by simp_all
  then show ?thesis
    using get_semiprime_empty_range[of 2 0 0] get_semiprime_empty_range[of "- 7" 3 1] by simp
qed

end
